theory Spec2Isabelle
  imports Main "HOL-Library.AList"
begin

section \<open>The handler registry (\<^verbatim>\<open>DefaultHandlerRegistry\<close>)\<close>

subsection \<open>Data\<close>

text \<open>
  A handler is a function object. \<^verbatim>\<open>===\<close> on two handlers compares their references, and
  \<^verbatim>\<open>handler.name\<close> reads the function's name, which several functions may share.
\<close>

datatype Handler = Handler (handler_ref: nat) (handler_name: string)

text \<open>
  A message class. \<^verbatim>\<open>new messageType().$name\<close> is the name every instance of the class
  carries; two classes may carry the same name.
\<close>

datatype ClassConstructor = ClassConstructor (ctor_ref: nat) (dollar_name: string)

record RegisteredHandlers =
  messageType :: ClassConstructor
  handlers :: "Handler list"

text \<open>What \<^verbatim>\<open>getLogger()\<close> is sent: the level, the text and the fields of each call.\<close>

datatype log_entry =
  LogInfo string "(string \<times> string) list"
| LogError string "(string \<times> string) list"

text \<open>
  The fields of the class, and what the logger has received. \<^verbatim>\<open>registry\<close> holds the own
  properties of the object that starts as \<^verbatim>\<open>{}\<close>, in creation order.
\<close>

record DefaultHandlerRegistry =
  registry :: "(string \<times> RegisteredHandlers) list"
  unhandledMessages :: "string list"
  logger :: "log_entry list"

definition new_registry :: DefaultHandlerRegistry where
  "new_registry = \<lparr>registry = [], unhandledMessages = [], logger = []\<rparr>"

datatype error = HandlerAlreadyRegistered string | TypeError

subsection \<open>Property access on the registry object\<close>

text \<open>
  \<^verbatim>\<open>this.registry\<close> is an object literal, so its prototype is \<^verbatim>\<open>Object.prototype\<close>:
  \<^verbatim>\<open>registry[k]\<close> and \<^verbatim>\<open>k in registry\<close> find the own properties first and the
  properties of \<^verbatim>\<open>Object.prototype\<close> after them. Those are functions, and the accessor
  \<^verbatim>\<open>__proto__\<close> that yields \<^verbatim>\<open>Object.prototype\<close> itself; all of them are truthy and
  none has a property \<^verbatim>\<open>handlers\<close>.
\<close>

definition Object_prototype :: "string list" where
  "Object_prototype =
     [''constructor'', ''__defineGetter__'', ''__defineSetter__'', ''hasOwnProperty'',
      ''__lookupGetter__'', ''__lookupSetter__'', ''isPrototypeOf'', ''propertyIsEnumerable'',
      ''toString'', ''valueOf'', ''__proto__'', ''toLocaleString'']"

datatype property = Own RegisteredHandlers | Inherited | Undefined

definition js_get :: "(string \<times> RegisteredHandlers) list \<Rightarrow> string \<Rightarrow> property" where
  "js_get obj k =
     (case map_of obj k of
        Some e \<Rightarrow> Own e
      | None \<Rightarrow> if k \<in> set Object_prototype then Inherited else Undefined)"

definition js_in :: "string \<Rightarrow> (string \<times> RegisteredHandlers) list \<Rightarrow> bool" where
  "js_in k obj = (map_of obj k \<noteq> None \<or> k \<in> set Object_prototype)"

fun truthy :: "property \<Rightarrow> bool" where
  "truthy (Own e) = True"
| "truthy Inherited = True"
| "truthy Undefined = False"

subsection \<open>Operations\<close>

text \<open>
  \<^verbatim>\<open>register\<close> returns its outcome and the state it leaves: an exception does not undo what
  the lines before it did. Reading \<^verbatim>\<open>.handlers\<close> of an inherited property gives
  \<^verbatim>\<open>undefined\<close>, and \<^verbatim>\<open>.some\<close> of that raises a TypeError.
\<close>

definition register ::
  "DefaultHandlerRegistry \<Rightarrow> ClassConstructor \<Rightarrow> Handler \<Rightarrow> (error + unit) \<times> DefaultHandlerRegistry"
where
  "register r mt handler =
     (let messageName = dollar_name mt;
          r1 = (if \<not> truthy (js_get (registry r) messageName)
                then r\<lparr>registry :=
                       AList.update messageName \<lparr>messageType = mt, handlers = []\<rparr> (registry r)\<rparr>
                else r)
      in case js_get (registry r1) messageName of
           Own e \<Rightarrow>
             if list_ex (\<lambda>registeredHandler. handler_ref registeredHandler = handler_ref handler)
                  (handlers e)
             then (Inl (HandlerAlreadyRegistered (handler_name handler)), r1)
             else (Inr (),
                   r1\<lparr>registry :=
                        AList.update messageName (e\<lparr>handlers := handlers e @ [handler]\<rparr>)
                          (registry r1),
                      logger := logger r1 @
                        [LogInfo ''Handler registered''
                           [(''messageType'', messageName), (''handler'', handler_name handler)]]\<rparr>)
         | Inherited \<Rightarrow> (Inl TypeError, r1)
         | Undefined \<Rightarrow> (Inl TypeError, r1))"

definition help_text :: string where
  "help_text =
     ''This could mean that either the handlers haven'' @ [CHR 0x27] @
     ''t been registered with bootstrap.registerHandler(),'' @
     '' or that the underlying transport is subscribed to messages that aren'' @ [CHR 0x27] @
     ''t handled and should be removed.''"

definition unhandled_entry :: "string \<Rightarrow> log_entry" where
  "unhandled_entry messageName =
     LogError ''No handlers were registered for message''
       [(''messageName'', messageName), (''help'', help_text)]"

text \<open>What \<^verbatim>\<open>get\<close> returns: an array of handlers, or \<^verbatim>\<open>undefined\<close>.\<close>

datatype get_result = Handlers "Handler list" | JsUndefined

definition get :: "DefaultHandlerRegistry \<Rightarrow> string \<Rightarrow> get_result \<times> DefaultHandlerRegistry" where
  "get r messageName =
     (if \<not> js_in messageName (registry r) then
        (if \<not> list_ex (\<lambda>m. m = messageName) (unhandledMessages r)
         then (Handlers [],
               r\<lparr>unhandledMessages := unhandledMessages r @ [messageName],
                 logger := logger r @ [unhandled_entry messageName]\<rparr>)
         else (Handlers [], r))
      else
        (case js_get (registry r) messageName of
           Own e \<Rightarrow> (Handlers (handlers e), r)
         | Inherited \<Rightarrow> (JsUndefined, r)
         | Undefined \<Rightarrow> (JsUndefined, r)))"

text \<open>
  \<^verbatim>\<open>Object.keys\<close>, as the set of the names: the order of the array (index-like names
  first, the others in creation order) is not modelled.
\<close>

definition getMessageNames :: "DefaultHandlerRegistry \<Rightarrow> string set" where
  "getMessageNames r = fst ` set (registry r)"

definition getMessageConstructor :: "DefaultHandlerRegistry \<Rightarrow> string \<Rightarrow> ClassConstructor option" where
  "getMessageConstructor r messageName =
     (if \<not> js_in messageName (registry r) then None
      else (case js_get (registry r) messageName of
              Own e \<Rightarrow> Some (messageType e)
            | Inherited \<Rightarrow> None
            | Undefined \<Rightarrow> None))"

definition reset :: "DefaultHandlerRegistry \<Rightarrow> DefaultHandlerRegistry" where
  "reset r = r\<lparr>registry := []\<rparr>"


subsection \<open>Reading the registry in statements\<close>

text \<open>The handlers stored under an own property of the registry, none when there is no such property.\<close>

definition own_handlers :: "DefaultHandlerRegistry \<Rightarrow> string \<Rightarrow> Handler list" where
  "own_handlers r name = (case map_of (registry r) name of Some e \<Rightarrow> handlers e | None \<Rightarrow> [])"



text \<open>
  The states a registry passes through: any sequence of calls on the object created by
  \<^verbatim>\<open>new DefaultHandlerRegistry()\<close>. A call that raises leaves the state it had reached,
  and the caller goes on.
\<close>

datatype call = Register ClassConstructor Handler | Get string | Reset

fun after_call :: "DefaultHandlerRegistry \<Rightarrow> call \<Rightarrow> DefaultHandlerRegistry" where
  "after_call r (Register mt h) = snd (register r mt h)"
| "after_call r (Get name) = snd (get r name)"
| "after_call r Reset = reset r"

definition after_calls :: "call list \<Rightarrow> DefaultHandlerRegistry" where
  "after_calls cs = foldl after_call new_registry cs"

text \<open>No own property of the registry bears a name that \<^verbatim>\<open>Object.prototype\<close> defines.\<close>

definition own_names_ok :: "DefaultHandlerRegistry \<Rightarrow> bool" where
  "own_names_ok r = list_all (\<lambda>(k, e). k \<notin> set Object_prototype) (registry r)"

text \<open>How many times the logger was sent the unhandled-message diagnostic of a name.\<close>

definition diagnostics :: "DefaultHandlerRegistry \<Rightarrow> string \<Rightarrow> nat" where
  "diagnostics r name = count_list (logger r) (unhandled_entry name)"

definition once_each :: "DefaultHandlerRegistry \<Rightarrow> bool" where
  "once_each r \<longleftrightarrow>
     (\<forall>name. diagnostics r name = (if name \<in> set (unhandledMessages r) then 1 else 0))"

section \<open>The transport, the dispatcher and the service bus\<close>

text \<open>
  The files \<^verbatim>\<open>service-bus.ts\<close>, \<^verbatim>\<open>bus.ts\<close> and the transport (\<^verbatim>\<open>MemoryQueue\<close>) that the
  integration tests import are not among the sources. The definitions of this section follow
  the specification's sections 3 to 6 instead.
\<close>

text \<open>
  Modelled from the spec: a message instance, which carries its stable type name (section 3).
  The message classes of \<^verbatim>\<open>@node-ts/bus-messages\<close> are missing.
\<close>

datatype Message = Message (message_ref: nat) (message_name: string)

text \<open>
  Modelled from the spec: the transport capability of section 6, as a queue of the messages that
  wait to be claimed and the handles that are claimed and not yet resolved. The transport
  (\<^verbatim>\<open>MemoryQueue\<close>) is missing.
\<close>

record Transport =
  pending :: "Message list"
  claimed :: "Message list"

text \<open>
  Modelled from the spec: the transport's \<^verbatim>\<open>send\<close> and \<^verbatim>\<open>publish\<close>, which enqueue the
  message (section 6). The transport is missing.
\<close>

definition transport_send :: "Message \<Rightarrow> Transport \<Rightarrow> Transport" where
  "transport_send m t = t\<lparr>pending := pending t @ [m]\<rparr>"

text \<open>
  Modelled from the spec: \<^verbatim>\<open>claimNext\<close> (section 6), which hands out the next message, or
  suspends (\<open>None\<close>) while there is none. The transport is missing.
\<close>

definition claimNext :: "Transport \<Rightarrow> (Message \<times> Transport) option" where
  "claimNext t =
     (case pending t of
        [] \<Rightarrow> None
      | m # ms \<Rightarrow> Some (m, t\<lparr>pending := ms, claimed := claimed t @ [m]\<rparr>))"

text \<open>
  Modelled from the spec: \<^verbatim>\<open>delete(handle)\<close> (section 6), which acknowledges success. The
  transport is missing.
\<close>

definition delete_message :: "Message \<Rightarrow> Transport \<Rightarrow> Transport" where
  "delete_message m t = t\<lparr>claimed := remove1 m (claimed t)\<rparr>"

text \<open>
  Modelled from the spec: \<^verbatim>\<open>retry(handle)\<close> (section 6), which releases the message back for
  redelivery. The transport is missing.
\<close>

definition retry_message :: "Message \<Rightarrow> Transport \<Rightarrow> Transport" where
  "retry_message m t = t\<lparr>claimed := remove1 m (claimed t), pending := pending t @ [m]\<rparr>"

text \<open>
  Modelled from the spec: \<^verbatim>\<open>depth()\<close> (section 6), the current pending count. The transport
  is missing.
\<close>

definition depth :: "Transport \<Rightarrow> nat" where
  "depth t = length (pending t)"

text \<open>
  Modelled from the spec: how one handler execution ends (section 4.2). A synchronous throw and
  a rejected asynchronous result are told apart here so that the dispatcher can be seen to treat
  them alike. The handlers' bodies are application code and are missing.
\<close>

datatype outcome = Completed | Threw | Rejected

text \<open>
  Modelled from the spec: what the handlers do, as a parameter: the outcome of a handler's call
  given how many calls of that handler came before (the test's handler throws on its first
  call only).
\<close>

type_synonym behaviour = "Handler \<Rightarrow> nat \<Rightarrow> outcome"

text \<open>Modelled from the spec: the number of calls of a handler among the calls made so far.\<close>

definition earlier_calls :: "(Handler \<times> Message) list \<Rightarrow> Handler \<Rightarrow> nat" where
  "earlier_calls calls h = length (filter (\<lambda>(h', m). handler_ref h' = handler_ref h) calls)"

text \<open>
  Modelled from the spec: step 4 of the claim/dispatch/resolve protocol (section 4.2): each
  handler found is invoked in order with the message. The result is the outcome of each
  invocation and the calls made so far. The dispatcher (\<^verbatim>\<open>service-bus.ts\<close>) is missing.
\<close>

fun invoke_handlers ::
  "behaviour \<Rightarrow> Message \<Rightarrow> Handler list \<Rightarrow> (Handler \<times> Message) list \<Rightarrow>
     outcome list \<times> (Handler \<times> Message) list"
where
  "invoke_handlers beh m [] calls = ([], calls)"
| "invoke_handlers beh m (h # hs) calls =
     (let out = beh h (earlier_calls calls h);
          (outs, calls') = invoke_handlers beh m hs (calls @ [(h, m)])
      in (out # outs, calls'))"

text \<open>Modelled from the spec: the bus states of section 3. \<^verbatim>\<open>bus.ts\<close> is missing.\<close>

datatype BusState = Stopped | Starting | Started | Stopping

text \<open>Modelled from the spec: the two event names of the hooks (section 3).\<close>

datatype hook = SendHook | PublishHook

text \<open>
  Modelled from the spec: the two configuration errors of the lifecycle (section 7): \<^verbatim>\<open>start\<close>
  from a state that is not Stopped, \<^verbatim>\<open>stop\<close> from a state that is not Started.
\<close>

datatype bus_error = NotStopped | NotStarted

text \<open>
  Modelled from the spec: the service bus (sections 3 and 4.3): its state, the worker slots it
  has provisioned, its transport, the handler calls its slots have made, the set of listeners
  of each event, and the calls each listener has received. A listener is a function object,
  known by its reference. \<^verbatim>\<open>service-bus.ts\<close> is missing.
\<close>

record ServiceBus =
  state :: BusState
  slots :: nat
  transport :: Transport
  invoked :: "(Handler \<times> Message) list"
  hooks :: "hook \<Rightarrow> nat set"
  hook_calls :: "nat \<Rightarrow> (hook \<times> Message) list"

text \<open>Modelled from the spec: a bus before \<^verbatim>\<open>start\<close>, with an empty transport and no listener.\<close>

definition new_bus :: ServiceBus where
  "new_bus = \<lparr>state = Stopped, slots = 0, transport = \<lparr>pending = [], claimed = []\<rparr>,
              invoked = [], hooks = (\<lambda>ev. {}), hook_calls = (\<lambda>l. [])\<rparr>"

text \<open>
  Modelled from the spec: one turn of a worker slot (section 4.2, steps 1 to 6). The slot claims
  only while the bus is Started; with no message it stays suspended (\<open>None\<close>). It looks the
  handlers up by the message's name (\<open>lookup\<close>, the registry's answer), invokes each, and has
  the transport delete the message when every handler completed, and return it for retry
  otherwise. The dispatcher (\<^verbatim>\<open>service-bus.ts\<close>) is missing.
\<close>

definition slot_cycle ::
  "(string \<Rightarrow> Handler list) \<Rightarrow> behaviour \<Rightarrow> ServiceBus \<Rightarrow> ServiceBus option"
where
  "slot_cycle lookup beh b =
     (if state b \<noteq> Started then None
      else case claimNext (transport b) of
        None \<Rightarrow> None
      | Some (m, t) \<Rightarrow>
          (let (outs, calls) = invoke_handlers beh m (lookup (message_name m)) (invoked b)
           in Some (b\<lparr>transport := (if list_all (\<lambda>out. out = Completed) outs
                                     then delete_message m t else retry_message m t),
                      invoked := calls\<rparr>)))"

text \<open>
  Modelled from the spec: a slot's loop (section 4.2), for at most the given number of turns; it
  rests as soon as a turn finds nothing to claim.
\<close>

fun slot_cycles ::
  "nat \<Rightarrow> (string \<Rightarrow> Handler list) \<Rightarrow> behaviour \<Rightarrow> ServiceBus \<Rightarrow> ServiceBus"
where
  "slot_cycles 0 lookup beh b = b"
| "slot_cycles (Suc n) lookup beh b =
     (case slot_cycle lookup beh b of
        None \<Rightarrow> b
      | Some b' \<Rightarrow> slot_cycles n lookup beh b')"

text \<open>
  Modelled from the spec: \<^verbatim>\<open>start(concurrencyBudget)\<close> (section 4.3): valid only in state
  Stopped; it passes through Starting, provisions the slots and ends in Started.
  \<^verbatim>\<open>service-bus.ts\<close> is missing.
\<close>

definition start :: "nat \<Rightarrow> ServiceBus \<Rightarrow> bus_error + ServiceBus" where
  "start n b =
     (if state b \<noteq> Stopped then Inl NotStopped
      else Inr ((b\<lparr>state := Starting\<rparr>)\<lparr>slots := n, state := Started\<rparr>))"

text \<open>
  Modelled from the spec: \<^verbatim>\<open>stop()\<close> (section 4.3): valid only in state Started; it passes
  through Stopping, lets the slots go and ends in Stopped. \<^verbatim>\<open>service-bus.ts\<close> is missing.
\<close>

definition stop :: "ServiceBus \<Rightarrow> bus_error + ServiceBus" where
  "stop b =
     (if state b \<noteq> Started then Inl NotStarted
      else Inr ((b\<lparr>state := Stopping\<rparr>)\<lparr>slots := 0, state := Stopped\<rparr>))"

text \<open>
  Modelled from the spec: \<^verbatim>\<open>on(eventName, listener)\<close> (section 4.3), which adds the listener
  to the event's set. \<^verbatim>\<open>service-bus.ts\<close> is missing.
\<close>

definition on :: "hook \<Rightarrow> nat \<Rightarrow> ServiceBus \<Rightarrow> ServiceBus" where
  "on ev l b = b\<lparr>hooks := (hooks b)(ev := insert l (hooks b ev))\<rparr>"

text \<open>
  Modelled from the spec: \<^verbatim>\<open>off(eventName, listener)\<close> (section 4.3), which removes the
  listener; removing one that is not registered changes nothing. \<^verbatim>\<open>service-bus.ts\<close> is
  missing.
\<close>

definition off :: "hook \<Rightarrow> nat \<Rightarrow> ServiceBus \<Rightarrow> ServiceBus" where
  "off ev l b = b\<lparr>hooks := (hooks b)(ev := hooks b ev - {l})\<rparr>"

text \<open>
  Modelled from the spec: the firing of an event (section 4.3): the listeners registered at fire
  time are each notified with the message.
\<close>

definition fire :: "hook \<Rightarrow> Message \<Rightarrow> ServiceBus \<Rightarrow> ServiceBus" where
  "fire ev m b =
     b\<lparr>hook_calls :=
         (\<lambda>l. if l \<in> hooks b ev then hook_calls b l @ [(ev, m)] else hook_calls b l)\<rparr>"

text \<open>
  Modelled from the spec: \<^verbatim>\<open>send(message)\<close> (section 4.3), which forwards to the transport
  and fires the \<^verbatim>\<open>send\<close> listeners. \<^verbatim>\<open>service-bus.ts\<close> is missing.
\<close>

definition send :: "Message \<Rightarrow> ServiceBus \<Rightarrow> ServiceBus" where
  "send m b = fire SendHook m (b\<lparr>transport := transport_send m (transport b)\<rparr>)"

text \<open>
  Modelled from the spec: \<^verbatim>\<open>publish(event)\<close> (section 4.3), which forwards to the transport
  and fires the \<^verbatim>\<open>publish\<close> listeners. \<^verbatim>\<open>service-bus.ts\<close> is missing.
\<close>

definition publish :: "Message \<Rightarrow> ServiceBus \<Rightarrow> ServiceBus" where
  "publish m b = fire PublishHook m (b\<lparr>transport := transport_send m (transport b)\<rparr>)"

section \<open>Properties of the handler registry\<close>

subsection \<open>The three cases of \<^verbatim>\<open>register\<close> and of \<^verbatim>\<open>get\<close>\<close>

lemma register_existing:
  "map_of (registry r) (dollar_name mt) = Some e \<Longrightarrow>
   register r mt h =
     (if list_ex (\<lambda>rh. handler_ref rh = handler_ref h) (handlers e)
      then (Inl (HandlerAlreadyRegistered (handler_name h)), r)
      else (Inr (),
            r\<lparr>registry := AList.update (dollar_name mt) (e\<lparr>handlers := handlers e @ [h]\<rparr>) (registry r),
              logger := logger r @
                [LogInfo ''Handler registered''
                   [(''messageType'', dollar_name mt), (''handler'', handler_name h)]]\<rparr>))"
  by (simp add: register_def js_get_def Let_def)

lemma register_inherited:
  "map_of (registry r) (dollar_name mt) = None \<Longrightarrow> dollar_name mt \<in> set Object_prototype \<Longrightarrow>
   register r mt h = (Inl TypeError, r)"
  by (simp add: register_def js_get_def Let_def)

lemma register_fresh:
  "map_of (registry r) (dollar_name mt) = None \<Longrightarrow> dollar_name mt \<notin> set Object_prototype \<Longrightarrow>
   register r mt h =
     (Inr (),
      r\<lparr>registry := AList.update (dollar_name mt) \<lparr>messageType = mt, handlers = [h]\<rparr> (registry r),
        logger := logger r @
          [LogInfo ''Handler registered''
             [(''messageType'', dollar_name mt), (''handler'', handler_name h)]]\<rparr>)"
  by (simp add: register_def js_get_def Let_def update_conv')

lemma get_own:
  "map_of (registry r) name = Some e \<Longrightarrow> get r name = (Handlers (handlers e), r)"
  by (simp add: get_def js_in_def js_get_def)

lemma get_inherited:
  "map_of (registry r) name = None \<Longrightarrow> name \<in> set Object_prototype \<Longrightarrow>
   get r name = (JsUndefined, r)"
  by (simp add: get_def js_in_def js_get_def)

lemma get_absent:
  "map_of (registry r) name = None \<Longrightarrow> name \<notin> set Object_prototype \<Longrightarrow>
   get r name =
     (Handlers [],
      if name \<in> set (unhandledMessages r) then r
      else r\<lparr>unhandledMessages := unhandledMessages r @ [name],
             logger := logger r @ [unhandled_entry name]\<rparr>)"
  by (simp add: get_def js_in_def list_ex_iff)

lemma register_ok_cases:
  assumes "fst (register r mt h) = Inr ()"
  shows "dollar_name mt \<notin> set Object_prototype \<or> map_of (registry r) (dollar_name mt) \<noteq> None"
proof (cases "map_of (registry r) (dollar_name mt)")
  case None
  with assms show ?thesis by (auto simp: register_inherited)
next
  case (Some e) then show ?thesis by simp
qed

lemma register_ok_own:
  assumes "fst (register r mt h) = Inr ()"
  shows "own_handlers (snd (register r mt h)) name =
           own_handlers r name @ (if dollar_name mt = name then [h] else [])
         \<and> map_of (registry (snd (register r mt h))) (dollar_name mt) \<noteq> None
         \<and> (map_of (registry r) name \<noteq> None \<longrightarrow>
              map_of (registry (snd (register r mt h))) name \<noteq> None)"
proof (cases "map_of (registry r) (dollar_name mt)")
  case None
  with assms have ni: "dollar_name mt \<notin> set Object_prototype"
    by (auto simp: register_inherited)
  show ?thesis
    using None by (auto simp: register_fresh [OF None ni] own_handlers_def update_conv')
next
  case (Some e)
  note eq = register_existing [OF Some]
  from assms have nd: "\<not> list_ex (\<lambda>rh. handler_ref rh = handler_ref h) (handlers e)"
    by (auto simp: eq split: if_splits)
  show ?thesis
    using Some nd by (auto simp: eq own_handlers_def update_conv')
qed




subsection \<open>A refused registration leaves no trace\<close>

text \<open>
  Claim C10. When \<^verbatim>\<open>register\<close> raises \<^verbatim>\<open>HandlerAlreadyRegistered\<close>, the state it leaves
  is the state it started from: the registrations, the names and the unhandled-name memory are
  untouched. The name already had its entry, so the create-if-absent step did nothing.
\<close>

theorem register_failure_atomic:
  assumes "fst (register r mt h) = Inl (HandlerAlreadyRegistered n)"
  shows "snd (register r mt h) = r \<and> map_of (registry r) (dollar_name mt) \<noteq> None"
proof (cases "map_of (registry r) (dollar_name mt)")
  case None
  show ?thesis
  proof (cases "dollar_name mt \<in> set Object_prototype")
    case True
    with assms None show ?thesis by (simp add: register_inherited)
  next
    case False
    with assms None show ?thesis by (simp add: register_fresh)
  qed
next
  case (Some e)
  with assms show ?thesis by (auto simp: register_existing split: if_splits)
qed


theorem register_failure_atomic_witness:
  "fst (register
          \<lparr>registry = [(''order-placed'',
                         \<lparr>messageType = ClassConstructor 1 ''order-placed'',
                            handlers = [Handler 7 ''ship'']\<rparr>)],
             unhandledMessages = [''ping''], logger = []\<rparr>
          (ClassConstructor 1 ''order-placed'') (Handler 7 ''ship'')) =
     Inl (HandlerAlreadyRegistered ''ship'')
   \<and> snd (register
          \<lparr>registry = [(''order-placed'',
                         \<lparr>messageType = ClassConstructor 1 ''order-placed'',
                            handlers = [Handler 7 ''ship'']\<rparr>)],
             unhandledMessages = [''ping''], logger = []\<rparr>
          (ClassConstructor 1 ''order-placed'') (Handler 7 ''ship'')) =
       \<lparr>registry = [(''order-placed'',
                      \<lparr>messageType = ClassConstructor 1 ''order-placed'',
                         handlers = [Handler 7 ''ship'']\<rparr>)],
          unhandledMessages = [''ping''], logger = []\<rparr>"
proof -
  have h: "fst (register
          \<lparr>registry = [(''order-placed'',
                         \<lparr>messageType = ClassConstructor 1 ''order-placed'',
                            handlers = [Handler 7 ''ship'']\<rparr>)],
             unhandledMessages = [''ping''], logger = []\<rparr>
          (ClassConstructor 1 ''order-placed'') (Handler 7 ''ship'')) =
     Inl (HandlerAlreadyRegistered ''ship'')"
    by (simp add: register_def js_get_def Let_def)
  show ?thesis using h register_failure_atomic [OF h] by simp
qed


subsection \<open>The states a registry can reach\<close>

lemma own_names_ok_iff:
  "own_names_ok r \<longleftrightarrow> (\<forall>k. map_of (registry r) k \<noteq> None \<longrightarrow> k \<notin> set Object_prototype)"
  unfolding own_names_ok_def list_all_iff
  by (auto simp: map_of_eq_None_iff image_iff split: prod.splits) 

lemma register_state_cases:
  "snd (register r mt h) = r \<or>
   (\<exists>e. registry (snd (register r mt h)) = AList.update (dollar_name mt) e (registry r)
        \<and> (map_of (registry r) (dollar_name mt) \<noteq> None \<or> dollar_name mt \<notin> set Object_prototype))"
proof (cases "map_of (registry r) (dollar_name mt)")
  case None
  then show ?thesis
    by (cases "dollar_name mt \<in> set Object_prototype")
       (auto simp: register_inherited register_fresh)
next
  case (Some e)
  then show ?thesis by (auto simp: register_existing)
qed

lemma own_names_ok_register: "own_names_ok r \<Longrightarrow> own_names_ok (snd (register r mt h))"
  using register_state_cases [of r mt h]
  by (auto simp: own_names_ok_iff update_conv' split: if_splits)

lemma get_registry: "registry (snd (get r name)) = registry r"
  by (simp add: get_def split: property.splits)

lemma own_names_ok_call: "own_names_ok r \<Longrightarrow> own_names_ok (after_call r c)"
proof (cases c)
  case (Register mt h)
  assume "own_names_ok r" then show ?thesis using Register by (simp add: own_names_ok_register)
next
  case (Get name)
  assume "own_names_ok r" then show ?thesis using Get by (simp add: own_names_ok_def get_registry)
next
  case Reset
  then show ?thesis by (simp add: own_names_ok_def reset_def)
qed

lemma own_names_ok_foldl: "own_names_ok r \<Longrightarrow> own_names_ok (foldl after_call r cs)"
  by (induction cs arbitrary: r) (simp_all add: own_names_ok_call)

lemma own_names_ok_after_calls: "own_names_ok (after_calls cs)"
  unfolding after_calls_def
  by (rule own_names_ok_foldl) (simp add: own_names_ok_def new_registry_def)


subsection \<open>Duplicate registration\<close>

lemma register_refuses:
  assumes "handler_ref h \<in> handler_ref ` set (own_handlers r (dollar_name mt))"
  shows "fst (register r mt h) = Inl (HandlerAlreadyRegistered (handler_name h))"
proof (cases "map_of (registry r) (dollar_name mt)")
  case None
  with assms show ?thesis by (simp add: own_handlers_def)
next
  case (Some e)
  with assms have "list_ex (\<lambda>rh. handler_ref rh = handler_ref h) (handlers e)"
    unfolding list_ex_iff own_handlers_def by auto
  then show ?thesis by (simp add: register_existing [OF Some])
qed

lemma register_accepts:
  assumes "fst (get r (dollar_name mt)) = Handlers hs"
    and "handler_ref h \<notin> handler_ref ` set hs"
  shows "fst (register r mt h) = Inr () \<and>
         fst (get (snd (register r mt h)) (dollar_name mt)) = Handlers (hs @ [h])"
proof (cases "map_of (registry r) (dollar_name mt)")
  case None
  show ?thesis
  proof (cases "dollar_name mt \<in> set Object_prototype")
    case True
    with None assms(1) show ?thesis by (simp add: get_inherited)
  next
    case False
    from assms(1) have "hs = []" by (simp add: get_absent [OF None False])
    then show ?thesis
      by (simp add: register_fresh [OF None False] get_def js_in_def js_get_def update_conv')
  qed
next
  case (Some e)
  from assms(1) have hs: "hs = handlers e" by (simp add: get_own [OF Some])
  with assms(2) have nd: "\<not> list_ex (\<lambda>rh. handler_ref rh = handler_ref h) (handlers e)"
    unfolding list_ex_iff by (metis imageI)
  show ?thesis
    using nd hs by (simp add: register_existing [OF Some] get_def js_in_def js_get_def update_conv')
qed

lemma get_own_handlers:
  "fst (get r name) = Handlers hs \<Longrightarrow> own_handlers r name = hs"
  by (cases "map_of (registry r) name"; cases "name \<in> set Object_prototype")
     (simp_all add: get_own get_inherited get_absent own_handlers_def)

lemma register_failed_state:
  "fst (register r mt h) \<noteq> Inr () \<Longrightarrow> snd (register r mt h) = r"
proof (cases "map_of (registry r) (dollar_name mt)")
  case None
  then show "fst (register r mt h) \<noteq> Inr () \<Longrightarrow> snd (register r mt h) = r"
    by (cases "dollar_name mt \<in> set Object_prototype")
       (simp_all add: register_inherited register_fresh)
next
  case (Some e)
  then show "fst (register r mt h) \<noteq> Inr () \<Longrightarrow> snd (register r mt h) = r"
    by (simp add: register_existing split: if_splits)
qed

lemma own_handlers_kept:
  assumes "c \<noteq> Reset" and "x \<in> set (own_handlers r name)"
  shows "x \<in> set (own_handlers (after_call r c) name)"
proof (cases c)
  case (Register mt h)
  show ?thesis
  proof (cases "fst (register r mt h) = Inr ()")
    case True
    from register_ok_own [OF True, of name] assms(2) show ?thesis
      using Register by simp
  next
    case False
    then show ?thesis using Register assms(2) by (simp add: register_failed_state)
  qed
next
  case (Get n)
  then show ?thesis using assms(2) by (simp add: own_handlers_def get_registry)
next
  case Reset
  with assms(1) show ?thesis by simp
qed

lemma own_handlers_kept_foldl:
  "Reset \<notin> set cs \<Longrightarrow> x \<in> set (own_handlers r name) \<Longrightarrow>
   x \<in> set (own_handlers (foldl after_call r cs) name)"
proof (induction cs arbitrary: r)
  case Nil
  then show ?case by simp
next
  case (Cons c cs)
  from Cons.prems have c: "c \<noteq> Reset" and cs: "Reset \<notin> set cs" by auto
  from own_handlers_kept [OF c Cons.prems(2)] Cons.IH [OF cs] show ?case by simp
qed

text \<open>
  Claim C3. In every state, for the list \<^verbatim>\<open>get\<close> returns for the name of the class:
  \<^verbatim>\<open>register\<close> raises \<^verbatim>\<open>HandlerAlreadyRegistered\<close> with the handler's name when the
  handler is anywhere in that list, at that call; when it is nowhere in the list the call
  returns, and \<^verbatim>\<open>get\<close> then returns the former list with the handler at its end. So once
  \<^verbatim>\<open>register(messageType, handler)\<close> has returned, the same call raises
  \<^verbatim>\<open>HandlerAlreadyRegistered\<close> when it is made again, at once or after any further calls of
  \<^verbatim>\<open>register\<close> and \<^verbatim>\<open>get\<close>, and a handler that is none of those registered under the
  name is accepted under a class of the same name and appended.
\<close>

theorem register_twice_raises:
  "(\<forall>hs. fst (get r (dollar_name mt)) = Handlers hs \<longrightarrow>
         (handler_ref h \<in> handler_ref ` set hs \<longrightarrow>
            fst (register r mt h) = Inl (HandlerAlreadyRegistered (handler_name h))) \<and>
         (handler_ref h \<notin> handler_ref ` set hs \<longrightarrow>
            fst (register r mt h) = Inr () \<and>
            fst (get (snd (register r mt h)) (dollar_name mt)) = Handlers (hs @ [h])))
   \<and> (fst (register r mt h) = Inr () \<longrightarrow>
         fst (register (snd (register r mt h)) mt h) =
           Inl (HandlerAlreadyRegistered (handler_name h)) \<and>
         (\<forall>cs. Reset \<notin> set cs \<longrightarrow>
               fst (register (foldl after_call (snd (register r mt h)) cs) mt h) =
                 Inl (HandlerAlreadyRegistered (handler_name h))) \<and>
         (\<forall>mt' h' hs.
               dollar_name mt' = dollar_name mt \<longrightarrow>
               fst (get (snd (register r mt h)) (dollar_name mt)) = Handlers hs \<longrightarrow>
               handler_ref h' \<notin> handler_ref ` set hs \<longrightarrow>
               fst (register (snd (register r mt h)) mt' h') = Inr () \<and>
               fst (get (snd (register (snd (register r mt h)) mt' h')) (dollar_name mt)) =
                 Handlers (hs @ [h'])))"
proof -
  have general: "(handler_ref h \<in> handler_ref ` set hs \<longrightarrow>
            fst (register r mt h) = Inl (HandlerAlreadyRegistered (handler_name h))) \<and>
         (handler_ref h \<notin> handler_ref ` set hs \<longrightarrow>
            fst (register r mt h) = Inr () \<and>
            fst (get (snd (register r mt h)) (dollar_name mt)) = Handlers (hs @ [h]))"
    if g: "fst (get r (dollar_name mt)) = Handlers hs" for hs
    using register_refuses [of h r mt] get_own_handlers [OF g] register_accepts [OF g]
    by blast
  have after: "fst (register (foldl after_call (snd (register r mt h)) cs) mt h) =
                 Inl (HandlerAlreadyRegistered (handler_name h))"
    if ok: "fst (register r mt h) = Inr ()" and cs: "Reset \<notin> set cs" for cs
  proof -
    from register_ok_own [OF ok, of "dollar_name mt"]
    have "h \<in> set (own_handlers (snd (register r mt h)) (dollar_name mt))" by simp
    from own_handlers_kept_foldl [OF cs this]
    have "handler_ref h \<in> handler_ref `
            set (own_handlers (foldl after_call (snd (register r mt h)) cs) (dollar_name mt))"
      by (rule imageI)
    then show ?thesis by (rule register_refuses)
  qed
  have now: "fst (register (snd (register r mt h)) mt h) =
               Inl (HandlerAlreadyRegistered (handler_name h))"
    if ok: "fst (register r mt h) = Inr ()"
    using after [OF ok, of "[]"] by simp
  have other: "fst (register (snd (register r mt h)) mt' h') = Inr () \<and>
               fst (get (snd (register (snd (register r mt h)) mt' h')) (dollar_name mt)) =
                 Handlers (hs @ [h'])"
    if n: "dollar_name mt' = dollar_name mt"
      and g: "fst (get (snd (register r mt h)) (dollar_name mt)) = Handlers hs"
      and fresh: "handler_ref h' \<notin> handler_ref ` set hs"
    for mt' h' hs
    using register_accepts [of "snd (register r mt h)" mt' hs h'] n g fresh by simp
  from general after now other show ?thesis by blast
qed

theorem register_twice_raises_witness:
  "fst (register new_registry (ClassConstructor 1 ''order-placed'') (Handler 7 ''ship'')) = Inr ()
   \<and> fst (register (snd (register new_registry (ClassConstructor 1 ''order-placed'') (Handler 7 ''ship'')))
            (ClassConstructor 1 ''order-placed'') (Handler 7 ''ship'')) =
       Inl (HandlerAlreadyRegistered ''ship'')
   \<and> fst (register
            (foldl after_call
               (snd (register new_registry (ClassConstructor 1 ''order-placed'') (Handler 7 ''ship'')))
               [Register (ClassConstructor 1 ''order-placed'') (Handler 9 ''notify'')])
            (ClassConstructor 1 ''order-placed'') (Handler 7 ''ship'')) =
       Inl (HandlerAlreadyRegistered ''ship'')
   \<and> fst (get (foldl after_call
               (snd (register new_registry (ClassConstructor 1 ''order-placed'') (Handler 7 ''ship'')))
               [Register (ClassConstructor 1 ''order-placed'') (Handler 9 ''notify'')])
            ''order-placed'') =
       Handlers [Handler 7 ''ship'', Handler 9 ''notify'']"
proof -
  let ?mt = "ClassConstructor 1 ''order-placed''"
  have h: "fst (register new_registry ?mt (Handler 7 ''ship'')) = Inr ()"
    by (simp add: register_def new_registry_def js_get_def Object_prototype_def Let_def)
  have nr: "Reset \<notin> set [Register ?mt (Handler 9 ''notify'')]" by simp
  have g: "fst (get (foldl after_call (snd (register new_registry ?mt (Handler 7 ''ship'')))
               [Register ?mt (Handler 9 ''notify'')]) ''order-placed'') =
       Handlers [Handler 7 ''ship'', Handler 9 ''notify'']"
    by (simp add: register_def new_registry_def js_get_def Object_prototype_def Let_def
          get_def js_in_def)
  from register_twice_raises [of new_registry ?mt "Handler 7 ''ship''"] h
  have "fst (register (snd (register new_registry ?mt (Handler 7 ''ship''))) ?mt (Handler 7 ''ship'')) =
           Inl (HandlerAlreadyRegistered (handler_name (Handler 7 ''ship'')))"
    and "\<forall>cs. Reset \<notin> set cs \<longrightarrow>
               fst (register (foldl after_call (snd (register new_registry ?mt (Handler 7 ''ship''))) cs)
                      ?mt (Handler 7 ''ship'')) =
                 Inl (HandlerAlreadyRegistered (handler_name (Handler 7 ''ship'')))"
    by blast+
  with h nr g show ?thesis by (simp del: foldl.simps)
qed


subsection \<open>Lookups of names without handlers\<close>

text \<open>
  Claim C4. A lookup of a name that \<^verbatim>\<open>Object.prototype\<close> defines, such as
  \<^verbatim>\<open>toString\<close>, on a registry with no registration at all: \<^verbatim>\<open>'toString' in {}\<close> holds, so
  \<^verbatim>\<open>get\<close> skips the branch that returns the empty list and returns the \<^verbatim>\<open>handlers\<close>
  property of \<^verbatim>\<open>Object.prototype.toString\<close>, which is \<^verbatim>\<open>undefined\<close>; the name is not
  remembered and nothing is logged.
\<close>

theorem get_inherited_name_undefined:
  "get new_registry ''toString'' = (JsUndefined, new_registry)"
  by (simp add: get_def js_in_def js_get_def new_registry_def Object_prototype_def)


text \<open>
  For every other name the lookup behaves as intended: the empty list, and the diagnostic on the
  first lookup only.
\<close>

lemma get_unregistered_name:
  assumes "map_of (registry r) name = None" and "name \<notin> set Object_prototype"
  shows "fst (get r name) = Handlers []"
    and "unhandledMessages (snd (get r name)) =
           (if name \<in> set (unhandledMessages r) then unhandledMessages r
            else unhandledMessages r @ [name])"
    and "logger (snd (get r name)) =
           (if name \<in> set (unhandledMessages r) then logger r
            else logger r @ [unhandled_entry name])"
  by (simp_all add: get_absent [OF assms])

lemma get_state_cases:
  "snd (get r name) = r \<or>
   (name \<notin> set (unhandledMessages r) \<and>
    snd (get r name) = r\<lparr>unhandledMessages := unhandledMessages r @ [name],
                            logger := logger r @ [unhandled_entry name]\<rparr>)"
  by (auto simp: get_def list_ex_iff split: property.splits)

lemma register_logger:
  "unhandledMessages (snd (register r mt h)) = unhandledMessages r \<and>
   diagnostics (snd (register r mt h)) name = diagnostics r name"
proof (cases "map_of (registry r) (dollar_name mt)")
  case None
  then show ?thesis
    by (cases "dollar_name mt \<in> set Object_prototype")
       (auto simp: register_inherited register_fresh diagnostics_def unhandled_entry_def)
next
  case (Some e)
  then show ?thesis by (auto simp: register_existing diagnostics_def unhandled_entry_def)
qed

lemma once_each_call: "once_each r \<Longrightarrow> once_each (after_call r c)"
proof (cases c)
  case (Register mt h)
  assume "once_each r" then show ?thesis using Register
    by (simp add: once_each_def register_logger)
next
  case (Get name)
  assume "once_each r" then show ?thesis using Get get_state_cases [of r name]
    by (auto simp: once_each_def diagnostics_def unhandled_entry_def)
next
  case Reset
  assume "once_each r" then show ?thesis using Reset
    by (simp add: once_each_def diagnostics_def reset_def)
qed

lemma once_each_foldl: "once_each r \<Longrightarrow> once_each (foldl after_call r cs)"
  by (induction cs arbitrary: r) (simp_all add: once_each_call)

lemma unhandled_diagnostic_at_most_once:
  "diagnostics (after_calls cs) name = (if name \<in> set (unhandledMessages (after_calls cs)) then 1 else 0)"
proof -
  have "once_each (after_calls cs)"
    unfolding after_calls_def
    by (rule once_each_foldl) (simp add: once_each_def diagnostics_def new_registry_def)
  then show ?thesis by (simp add: once_each_def)
qed

lemma unhandled_diagnostic_once:
  assumes "name \<notin> getMessageNames (after_calls cs)" and "name \<notin> set Object_prototype"
  shows "fst (get (after_calls cs) name) = Handlers []
         \<and> diagnostics (after_calls (cs @ [Get name])) name = 1"
proof -
  from assms(1) have none: "map_of (registry (after_calls cs)) name = None"
    by (simp add: getMessageNames_def map_of_eq_None_iff)
  have "name \<in> set (unhandledMessages (after_calls (cs @ [Get name])))"
    using get_unregistered_name(2) [OF none assms(2)]
    by (simp add: after_calls_def)
  then show ?thesis
    using unhandled_diagnostic_at_most_once [of "cs @ [Get name]" name]
      get_unregistered_name(1) [OF none assms(2)]
    by simp
qed


subsection \<open>Reset\<close>

text \<open>
  Claim C6. A name that has a registration in a state the registry can reach has none after
  \<^verbatim>\<open>reset()\<close>: \<^verbatim>\<open>get\<close> returns the empty list for it, and \<^verbatim>\<open>getMessageNames()\<close> is
  empty.
\<close>

theorem reset_clears_registrations:
  assumes "name \<in> getMessageNames (after_calls cs)"
  shows "fst (get (reset (after_calls cs)) name) = Handlers []
         \<and> getMessageNames (reset (after_calls cs)) = {}"
proof -
  from assms have "map_of (registry (after_calls cs)) name \<noteq> None"
    by (simp add: getMessageNames_def map_of_eq_None_iff)
  with own_names_ok_after_calls [of cs] have ni: "name \<notin> set Object_prototype"
    by (simp add: own_names_ok_iff)
  have "map_of (registry (reset (after_calls cs))) name = None"
    by (simp add: reset_def)
  from get_absent [OF this ni] show ?thesis
    by (simp add: getMessageNames_def reset_def)
qed

theorem reset_clears_registrations_witness:
  "''order-placed'' \<in> getMessageNames
      (after_calls [Register (ClassConstructor 1 ''order-placed'') (Handler 7 ''ship'')])
   \<and> fst (get (after_calls [Register (ClassConstructor 1 ''order-placed'') (Handler 7 ''ship'')])
            ''order-placed'') = Handlers [Handler 7 ''ship'']
   \<and> fst (get (reset (after_calls [Register (ClassConstructor 1 ''order-placed'') (Handler 7 ''ship'')]))
            ''order-placed'') = Handlers []"
proof -
  have h: "''order-placed'' \<in> getMessageNames
      (after_calls [Register (ClassConstructor 1 ''order-placed'') (Handler 7 ''ship'')])"
    by (simp add: after_calls_def new_registry_def register_def js_get_def Object_prototype_def
          Let_def getMessageNames_def)
  have g: "fst (get (after_calls [Register (ClassConstructor 1 ''order-placed'') (Handler 7 ''ship'')])
            ''order-placed'') = Handlers [Handler 7 ''ship'']"
    by (simp add: after_calls_def new_registry_def register_def js_get_def Object_prototype_def
          Let_def get_def js_in_def)
  show ?thesis using h g reset_clears_registrations [OF h] by simp
qed



text \<open>
  Claim C5, as amended. \<^verbatim>\<open>reset()\<close> empties the registrations and leaves the unhandled-name
  memory as it was: after it, the lookup of a name that had already triggered the diagnostic
  changes nothing, and the logger receives nothing more.
\<close>

theorem reset_keeps_unhandled_memory:
  "registry (reset r) = [] \<and> unhandledMessages (reset r) = unhandledMessages r
   \<and> (name \<in> set (unhandledMessages r) \<longrightarrow>
        snd (get (reset r) name) = reset r \<and> logger (snd (get (reset r) name)) = logger r)"
  by (simp add: reset_def get_def list_ex_iff split: property.splits)

theorem reset_keeps_unhandled_memory_witness:
  "''ping'' \<in> set (unhandledMessages (snd (get new_registry ''ping'')))
   \<and> logger (snd (get (reset (snd (get new_registry ''ping''))) ''ping'')) =
       logger (snd (get new_registry ''ping''))"
proof -
  have h: "''ping'' \<in> set (unhandledMessages (snd (get new_registry ''ping'')))"
    by (simp add: get_def js_in_def new_registry_def Object_prototype_def)
  show ?thesis
    using h reset_keeps_unhandled_memory [of "snd (get new_registry ''ping'')" "''ping''"]
    by blast
qed


text \<open>
  Claim C5 as stated fails: the first lookup of \<^verbatim>\<open>ping\<close> logs the diagnostic; after
  \<^verbatim>\<open>reset()\<close> the second lookup returns the empty list and logs nothing, so the logger
  holds one diagnostic and not two.
\<close>

theorem reset_diagnostic_again_counterexample:
  "fst (get (reset (snd (get new_registry ''ping''))) ''ping'') = Handlers []
   \<and> logger (snd (get new_registry ''ping'')) = [unhandled_entry ''ping'']
   \<and> logger (snd (get (reset (snd (get new_registry ''ping''))) ''ping'')) =
       [unhandled_entry ''ping'']
   \<and> logger (snd (get (reset (snd (get new_registry ''ping''))) ''ping'')) \<noteq>
       logger (reset (snd (get new_registry ''ping''))) @ [unhandled_entry ''ping'']"
  by (simp add: get_def js_in_def new_registry_def Object_prototype_def reset_def)



section \<open>Properties of the dispatcher and the service bus\<close>

subsection \<open>A turn of a worker slot\<close>

lemma invoke_handlers_trace:
  "snd (invoke_handlers beh m hs calls) = calls @ map (\<lambda>h. (h, m)) hs"
  by (induction hs arbitrary: calls) (simp_all add: Let_def case_prod_beta)

lemma slot_cycle_step:
  assumes "state b = Started" and "pending (transport b) = m # ms"
  shows "slot_cycle lookup beh b =
           Some (b\<lparr>transport :=
                     (if list_all (\<lambda>out. out = Completed)
                           (fst (invoke_handlers beh m (lookup (message_name m)) (invoked b)))
                      then delete_message m
                             ((transport b)\<lparr>pending := ms, claimed := claimed (transport b) @ [m]\<rparr>)
                      else retry_message m
                             ((transport b)\<lparr>pending := ms, claimed := claimed (transport b) @ [m]\<rparr>)),
                    invoked := invoked b @ map (\<lambda>h. (h, m)) (lookup (message_name m))\<rparr>)"
  using assms invoke_handlers_trace [of beh m "lookup (message_name m)" "invoked b"]
  by (simp add: slot_cycle_def claimNext_def case_prod_beta)

lemma retry_until_success:
  assumes fails: "\<forall>i<k. beh h i \<noteq> Completed" and succeeds: "beh h k = Completed"
    and lookup: "lookup (message_name m) = [h]"
  shows "state b = Started \<Longrightarrow> pending (transport b) = [m] \<Longrightarrow> claimed (transport b) = [] \<Longrightarrow>
         earlier_calls (invoked b) h = j \<Longrightarrow> k - j = n \<Longrightarrow> j \<le> k \<Longrightarrow>
         pending (transport (slot_cycles (Suc n) lookup beh b)) = [] \<and>
         claimed (transport (slot_cycles (Suc n) lookup beh b)) = [] \<and>
         invoked (slot_cycles (Suc n) lookup beh b) = invoked b @ replicate (Suc n) (h, m)"
proof (induction n arbitrary: b j)
  case 0
  then have j: "j = k" by simp
  show ?case
    using 0 succeeds j
    by (simp add: slot_cycle_step [OF "0.prems"(1,2)] lookup delete_message_def)
next
  case (Suc n)
  then have j: "j < k" by simp
  with fails have f: "beh h j \<noteq> Completed" by blast
  define b1 where "b1 = b\<lparr>transport := \<lparr>pending = [m], claimed = []\<rparr>, invoked := invoked b @ [(h, m)]\<rparr>"
  have step: "slot_cycle lookup beh b = Some b1"
    using Suc.prems f
    by (simp add: slot_cycle_step [OF Suc.prems(1,2)] lookup retry_message_def b1_def)
  have ih: "pending (transport (slot_cycles (Suc n) lookup beh b1)) = [] \<and>
         claimed (transport (slot_cycles (Suc n) lookup beh b1)) = [] \<and>
         invoked (slot_cycles (Suc n) lookup beh b1) = invoked b1 @ replicate (Suc n) (h, m)"
    using Suc.prems
    by (intro Suc.IH [of b1 "Suc j"]) (auto simp: b1_def earlier_calls_def)
  have "slot_cycles (Suc (Suc n)) lookup beh b = slot_cycles (Suc n) lookup beh b1"
    using step by simp
  with ih show ?case
    by (simp add: b1_def replicate_append_same)
qed

lemma length_remove1_snoc: "length (remove1 m (xs @ [m])) = length xs"
  by (simp add: length_remove1)


text \<open>
  Claim C2. A slot of a started bus that finds a message \<open>m\<close> at the head of the queue
  completes its turn. If every handler invoked for \<open>m\<close> completes, the transport is told to
  delete it: the rest of the queue is what remains, no handle stays claimed, and the depth is
  one less than before the claim. If a handler throws or its promise is rejected (the two are
  not told apart), \<open>m\<close> goes back to the end of the queue. A single handler that fails on each
  of its first \<open>k\<close> calls (\<open>k\<close> at least 1) and completes on the next has been invoked
  \<open>k + 1\<close> times, at least twice, after \<open>k + 1\<close> turns, and the queue is empty.
\<close>

theorem slot_resolves_message:
  assumes "state b = Started" and "pending (transport b) = m # ms"
  shows "\<exists>b'. slot_cycle lookup beh b = Some b' \<and>
           ((\<forall>out \<in> set (fst (invoke_handlers beh m (lookup (message_name m)) (invoked b))).
                out = Completed) \<longrightarrow>
              pending (transport b') = ms \<and>
              length (claimed (transport b')) = length (claimed (transport b)) \<and>
              depth (transport b') + 1 = depth (transport b)) \<and>
           ((\<exists>out \<in> set (fst (invoke_handlers beh m (lookup (message_name m)) (invoked b))).
                out = Threw \<or> out = Rejected) \<longrightarrow>
              pending (transport b') = ms @ [m] \<and>
              length (claimed (transport b')) = length (claimed (transport b))) \<and>
           (\<forall>h k. lookup (message_name m) = [h] \<longrightarrow> ms = [] \<longrightarrow> claimed (transport b) = [] \<longrightarrow>
                  earlier_calls (invoked b) h = 0 \<longrightarrow> 0 < k \<longrightarrow>
                  (\<forall>i<k. beh h i = Threw \<or> beh h i = Rejected) \<longrightarrow> beh h k = Completed \<longrightarrow>
                  pending (transport (slot_cycles (Suc k) lookup beh b)) = [] \<and>
                  claimed (transport (slot_cycles (Suc k) lookup beh b)) = [] \<and>
                  depth (transport (slot_cycles (Suc k) lookup beh b)) = 0 \<and>
                  invoked (slot_cycles (Suc k) lookup beh b) = invoked b @ replicate (Suc k) (h, m) \<and>
                  2 \<le> earlier_calls (invoked (slot_cycles (Suc k) lookup beh b)) h)"
proof -
  let ?outs = "fst (invoke_handlers beh m (lookup (message_name m)) (invoked b))"
  note step = slot_cycle_step [OF assms, of lookup beh]
  have ok: "(\<forall>out \<in> set ?outs. out = Completed) \<longleftrightarrow> list_all (\<lambda>out. out = Completed) ?outs"
    by (simp add: list_all_iff)
  have bad: "(\<exists>out \<in> set ?outs. out = Threw \<or> out = Rejected) \<longleftrightarrow>
               \<not> list_all (\<lambda>out. out = Completed) ?outs"
    unfolding list_all_iff by (metis outcome.exhaust outcome.distinct(1,3))
  have scenario:
    "pending (transport (slot_cycles (Suc k) lookup beh b)) = [] \<and>
     claimed (transport (slot_cycles (Suc k) lookup beh b)) = [] \<and>
     depth (transport (slot_cycles (Suc k) lookup beh b)) = 0 \<and>
     invoked (slot_cycles (Suc k) lookup beh b) = invoked b @ replicate (Suc k) (h, m) \<and>
     2 \<le> earlier_calls (invoked (slot_cycles (Suc k) lookup beh b)) h"
    if l: "lookup (message_name m) = [h]" and ms: "ms = []" and c: "claimed (transport b) = []"
      and e: "earlier_calls (invoked b) h = 0" and k: "0 < k"
      and f: "\<forall>i<k. beh h i = Threw \<or> beh h i = Rejected" and s: "beh h k = Completed"
    for h k
  proof -
    from f have f': "\<forall>i<k. beh h i \<noteq> Completed" by auto
    from assms(2) ms have p: "pending (transport b) = [m]" by simp
    have r: "pending (transport (slot_cycles (Suc k) lookup beh b)) = [] \<and>
         claimed (transport (slot_cycles (Suc k) lookup beh b)) = [] \<and>
         invoked (slot_cycles (Suc k) lookup beh b) = invoked b @ replicate (Suc k) (h, m)"
      using retry_until_success [of k beh h lookup m b 0 k, OF f' s l assms(1) p c e] by simp
    then have "earlier_calls (invoked (slot_cycles (Suc k) lookup beh b)) h = Suc k"
      using e by (simp add: earlier_calls_def)
    with r k show ?thesis by (simp add: depth_def)
  qed
  define b' where "b' = the (slot_cycle lookup beh b)"
  have cyc: "slot_cycle lookup beh b = Some b'"
    by (simp add: b'_def step)
  have del: "(\<forall>out \<in> set ?outs. out = Completed) \<longrightarrow>
              pending (transport b') = ms \<and>
              length (claimed (transport b')) = length (claimed (transport b)) \<and>
              depth (transport b') + 1 = depth (transport b)"
    unfolding ok
    by (simp add: b'_def step delete_message_def depth_def assms(2) length_remove1_snoc)
  have ret: "(\<exists>out \<in> set ?outs. out = Threw \<or> out = Rejected) \<longrightarrow>
              pending (transport b') = ms @ [m] \<and>
              length (claimed (transport b')) = length (claimed (transport b))"
    unfolding bad
    by (simp add: b'_def step retry_message_def length_remove1_snoc)
  from cyc del ret scenario show ?thesis by blast
qed


theorem slot_resolves_message_witness:
  "state (publish (Message 1 ''test-event'') (new_bus\<lparr>state := Started\<rparr>)) = Started
   \<and> pending (transport (publish (Message 1 ''test-event'') (new_bus\<lparr>state := Started\<rparr>))) =
       [Message 1 ''test-event'']
   \<and> invoked
        (slot_cycles 2 (\<lambda>name. [Handler 1 ''handle''])
           (\<lambda>h i. if i = 0 then Threw else Completed)
           (publish (Message 1 ''test-event'') (new_bus\<lparr>state := Started\<rparr>))) =
       [(Handler 1 ''handle'', Message 1 ''test-event''),
        (Handler 1 ''handle'', Message 1 ''test-event'')]
   \<and> depth (transport
        (slot_cycles 2 (\<lambda>name. [Handler 1 ''handle''])
           (\<lambda>h i. if i = 0 then Threw else Completed)
           (publish (Message 1 ''test-event'') (new_bus\<lparr>state := Started\<rparr>)))) = 0"
proof -
  let ?b = "publish (Message 1 ''test-event'') (new_bus\<lparr>state := Started\<rparr>)"
  have s: "state ?b = Started"
    by (simp add: publish_def fire_def new_bus_def)
  have p: "pending (transport ?b) = Message 1 ''test-event'' # []"
    by (simp add: publish_def fire_def new_bus_def transport_send_def)
  have c: "claimed (transport ?b) = []"
    by (simp add: publish_def fire_def new_bus_def transport_send_def)
  have e: "earlier_calls (invoked ?b) (Handler 1 ''handle'') = 0"
    by (simp add: publish_def fire_def new_bus_def earlier_calls_def)
  from slot_resolves_message [OF s p, of "\<lambda>name. [Handler 1 ''handle'']"
      "\<lambda>h i. if i = 0 then Threw else Completed"]
  have "\<forall>h k. (\<lambda>name. [Handler 1 ''handle'']) (message_name (Message 1 ''test-event'')) = [h] \<longrightarrow>
          [] = ([]::Message list) \<longrightarrow> claimed (transport ?b) = [] \<longrightarrow>
          earlier_calls (invoked ?b) h = 0 \<longrightarrow> 0 < k \<longrightarrow>
          (\<forall>i<k. (if i = 0 then Threw else Completed) = Threw \<or>
                  (if i = 0 then Threw else Completed) = Rejected) \<longrightarrow>
          (if k = 0 then Threw else Completed) = Completed \<longrightarrow>
          pending (transport (slot_cycles (Suc k) (\<lambda>name. [Handler 1 ''handle''])
             (\<lambda>h i. if i = 0 then Threw else Completed) ?b)) = [] \<and>
          claimed (transport (slot_cycles (Suc k) (\<lambda>name. [Handler 1 ''handle''])
             (\<lambda>h i. if i = 0 then Threw else Completed) ?b)) = [] \<and>
          depth (transport (slot_cycles (Suc k) (\<lambda>name. [Handler 1 ''handle''])
             (\<lambda>h i. if i = 0 then Threw else Completed) ?b)) = 0 \<and>
          invoked (slot_cycles (Suc k) (\<lambda>name. [Handler 1 ''handle''])
             (\<lambda>h i. if i = 0 then Threw else Completed) ?b) =
            invoked ?b @ replicate (Suc k) (h, Message 1 ''test-event'') \<and>
          2 \<le> earlier_calls (invoked (slot_cycles (Suc k) (\<lambda>name. [Handler 1 ''handle''])
             (\<lambda>h i. if i = 0 then Threw else Completed) ?b)) h"
    by blast
  from this [rule_format, of "Handler 1 ''handle''" 1] c e
  have "depth (transport (slot_cycles (Suc 1) (\<lambda>name. [Handler 1 ''handle''])
             (\<lambda>h i. if i = 0 then Threw else Completed) ?b)) = 0 \<and>
        invoked (slot_cycles (Suc 1) (\<lambda>name. [Handler 1 ''handle''])
             (\<lambda>h i. if i = 0 then Threw else Completed) ?b) =
            invoked ?b @ replicate (Suc 1) (Handler 1 ''handle'', Message 1 ''test-event'')"
    by simp
  moreover have "invoked ?b = []"
    by (simp add: publish_def fire_def new_bus_def)
  moreover have "Suc 1 = 2" by simp
  ultimately show ?thesis using s p
    by (simp add: numeral_2_eq_2 del: slot_cycles.simps)
qed


subsection \<open>Registration order\<close>




subsection \<open>Lifecycle\<close>

text \<open>
  Claim C7. \<^verbatim>\<open>start\<close> in state Starting, Started or Stopping raises an error and returns
  no bus; \<^verbatim>\<open>stop\<close> in state Stopped raises an error. \<^verbatim>\<open>start\<close> returns exactly when the
  state is Stopped, and \<^verbatim>\<open>stop\<close> exactly when it is Started.
\<close>

theorem lifecycle_guards:
  "(state b \<in> {Starting, Started, Stopping} \<longrightarrow> start n b = Inl NotStopped)
   \<and> (state b = Stopped \<longrightarrow> stop b = Inl NotStarted)
   \<and> ((\<exists>b'. start n b = Inr b') \<longleftrightarrow> state b = Stopped)
   \<and> ((\<exists>b'. stop b = Inr b') \<longleftrightarrow> state b = Started)"
  by (auto simp: start_def stop_def)

theorem lifecycle_guards_witness:
  "(\<exists>b1. start 2 new_bus = Inr b1 \<and> state b1 = Started \<and> start 2 b1 = Inl NotStopped)
   \<and> stop new_bus = Inl NotStarted"
proof -
  have s: "state new_bus = Stopped" by (simp add: new_bus_def)
  from lifecycle_guards [of new_bus 2] s
  obtain b1 where b1: "start 2 new_bus = Inr b1" and st: "stop new_bus = Inl NotStarted"
    by auto
  from b1 have started: "state b1 = Started"
    by (auto simp: start_def split: if_splits)
  with lifecycle_guards [of b1 2] have "start 2 b1 = Inl NotStopped" by simp
  with b1 started st show ?thesis by blast
qed


subsection \<open>Hooks\<close>

text \<open>
  Claim C8. A call of \<^verbatim>\<open>send\<close> adds exactly one call to every listener registered for
  \<^verbatim>\<open>send\<close> at that time and none to any other listener, and \<^verbatim>\<open>publish\<close> does the same
  for the \<^verbatim>\<open>publish\<close> listeners. A listener that is registered, sees one \<^verbatim>\<open>send\<close> and is
  removed with \<^verbatim>\<open>off\<close> has received that one call and no more after a second
  \<^verbatim>\<open>send\<close>; likewise for \<^verbatim>\<open>publish\<close>.
\<close>

theorem hooks_fire_once:
  "hook_calls (send m b) l =
     (if l \<in> hooks b SendHook then hook_calls b l @ [(SendHook, m)] else hook_calls b l)
   \<and> hook_calls (publish m b) l =
     (if l \<in> hooks b PublishHook then hook_calls b l @ [(PublishHook, m)] else hook_calls b l)
   \<and> hook_calls (send m2 (off SendHook l (send m1 (on SendHook l b)))) l =
       hook_calls b l @ [(SendHook, m1)]
   \<and> hook_calls (publish m2 (off PublishHook l (publish m1 (on PublishHook l b)))) l =
       hook_calls b l @ [(PublishHook, m1)]"
  by (simp add: send_def publish_def fire_def on_def off_def)


theorem hooks_fire_once_witness:
  "hook_calls
     (send (Message 2 ''test-command'')
        (off SendHook 5 (send (Message 1 ''test-command'') (on SendHook 5 new_bus)))) 5 =
     [(SendHook, Message 1 ''test-command'')]"
  using hooks_fire_once [of "Message 1 ''test-command''" new_bus 5 "Message 2 ''test-command''"
      "Message 1 ''test-command''"]
  by (simp add: new_bus_def)

end
